theory Spec2Isabelle
  imports Main
begin

section \<open>The store\<close>

text \<open>
  The three tables of \<^verbatim>\<open>initDB\<close> in \<^verbatim>\<open>src/cmd/http_server/main.go\<close>. A table that has not
  been created yet is \<open>None\<close>. \<^verbatim>\<open>polling_state\<close> holds at most one row, the one with
  \<^verbatim>\<open>id = 1\<close> (\<^verbatim>\<open>CHECK (id = 1)\<close>), so the table is the optional value of its
  \<^verbatim>\<open>last_processed_id\<close> column. The \<^verbatim>\<open>created_at\<close> columns are read by no statement of
  the program and are left out.

  The store value is the durable (committed) content. A statement outside a transaction
  (\<^verbatim>\<open>db.Exec\<close>) changes it at once; a transaction works on a copy that replaces the store
  at a successful \<^verbatim>\<open>Commit\<close> and is dropped otherwise. One poller cycle and one request
  are each taken as one step: the interleaving of their statements is not modelled.
  Identifiers are SQLite's 64-bit integers, taken as \<open>int\<close>: the program only compares them.
  Each statement of the program can fail for reasons outside it (a locked database, an I/O
  error); a record of flags per operation says which statements fail.
\<close>

record order_row =
  o_id :: int
  customer_name :: string
  product_name :: string
  quantity :: string
  shipping_address :: string
  priority :: string

record change_row =
  pc_id :: int
  order_id :: int
  pc_priority :: string
  processed :: bool

record database =
  orders :: "order_row list option"
  priority_changes :: "change_row list option"
  polling_state :: "int option option"

definition no_tables :: database where
  "no_tables = \<lparr>orders = None, priority_changes = None, polling_state = None\<rparr>"

definition changes_of :: "database \<Rightarrow> change_row list" where
  "changes_of db = (case priority_changes db of None \<Rightarrow> [] | Some cs \<Rightarrow> cs)"

definition orders_of :: "database \<Rightarrow> order_row list" where
  "orders_of db = (case orders db of None \<Rightarrow> [] | Some os \<Rightarrow> os)"

definition watermark :: "database \<Rightarrow> int option" where
  "watermark db = (case polling_state db of Some (Some w) \<Rightarrow> Some w | _ \<Rightarrow> None)"

text \<open>
  \<^verbatim>\<open>INTEGER PRIMARY KEY AUTOINCREMENT\<close>: the new row gets one more than the largest id the
  table has held, starting at 1. No statement of the program deletes a row, so that is
  the largest id in the table.
\<close>

definition next_id :: "int list \<Rightarrow> int" where
  "next_id ids = foldr max ids 0 + 1"

section \<open>initDB\<close>

record init_faults =
  create_orders_fails :: bool
  create_changes_fails :: bool
  create_state_fails :: bool
  insert_state_fails :: bool

definition create_if_absent :: "'a option \<Rightarrow> 'a \<Rightarrow> 'a option" where
  "create_if_absent t new = (case t of None \<Rightarrow> Some new | Some rows \<Rightarrow> Some rows)"

text \<open>
  Four \<^verbatim>\<open>db.Exec\<close> calls, each committed on its own; the first error is returned
  (\<open>True\<close> in the first component) and the statements before it stay applied.
  \<^verbatim>\<open>INSERT OR IGNORE\<close> adds the row \<open>(1, 0)\<close> only when no row with id 1 is there.
\<close>

definition initDB :: "init_faults \<Rightarrow> database \<Rightarrow> bool \<times> database" where
  "initDB f db =
     (if create_orders_fails f then (True, db)
      else let db1 = db\<lparr>orders := create_if_absent (orders db) []\<rparr> in
        if create_changes_fails f then (True, db1)
        else let db2 = db1\<lparr>priority_changes := create_if_absent (priority_changes db1) []\<rparr> in
          if create_state_fails f then (True, db2)
          else let db3 = db2\<lparr>polling_state := create_if_absent (polling_state db2) None\<rparr> in
            if insert_state_fails f then (True, db3)
            else (case polling_state db3 of
                    None \<Rightarrow> (True, db3)
                  | Some None \<Rightarrow> (False, db3\<lparr>polling_state := Some (Some 0)\<rparr>)
                  | Some (Some w) \<Rightarrow> (False, db3)))"

definition init_ok :: init_faults where
  "init_ok = \<lparr>create_orders_fails = False, create_changes_fails = False,
              create_state_fails = False, insert_state_fails = False\<rparr>"

section \<open>The poller\<close>

record poll_faults =
  begin_fails :: bool
  read_fails :: bool
  query_fails :: bool
  scan_fails :: "int \<Rightarrow> bool"
  mark_fails :: "int \<Rightarrow> bool"
  advance_fails :: bool
  commit_fails :: bool

definition poll_ok :: poll_faults where
  "poll_ok = \<lparr>begin_fails = False, read_fails = False, query_fails = False,
              scan_fails = (\<lambda>i. False), mark_fails = (\<lambda>i. False),
              advance_fails = False, commit_fails = False\<rparr>"

text \<open>
  The \<^verbatim>\<open>SELECT\<close> of the cycle: the join of \<^verbatim>\<open>priority_changes\<close> with \<^verbatim>\<open>orders\<close> on
  \<^verbatim>\<open>pc.order_id = o.id\<close>, the three \<^verbatim>\<open>WHERE\<close> conditions, \<^verbatim>\<open>ORDER BY pc.id ASC\<close>, and
  the three selected columns.
\<close>

definition joined :: "order_row list \<Rightarrow> change_row list \<Rightarrow> (change_row \<times> order_row) list" where
  "joined os cs = concat (map (\<lambda>pc. map (Pair pc) (filter (\<lambda>r. order_id pc = o_id r) os)) cs)"

definition select_changes ::
  "order_row list \<Rightarrow> change_row list \<Rightarrow> int \<Rightarrow> (int \<times> int \<times> string) list" where
  "select_changes os cs lastID =
     map (\<lambda>pc. (pc_id pc, order_id pc, pc_priority pc))
       (sort_key pc_id
          (map fst
             (filter (\<lambda>(pc, r). product_name r = ''ninja'' \<and> lastID < pc_id pc \<and> \<not> processed pc)
                (joined os cs))))"

text \<open>\<^verbatim>\<open>UPDATE priority_changes SET processed = TRUE WHERE id = ?\<close>\<close>

definition set_processed :: "int \<Rightarrow> database \<Rightarrow> database" where
  "set_processed i tx =
     tx\<lparr>priority_changes :=
          map_option (map (\<lambda>pc. if pc_id pc = i then pc\<lparr>processed := True\<rparr> else pc))
            (priority_changes tx)\<rparr>"

text \<open>\<^verbatim>\<open>UPDATE polling_state SET last_processed_id = ? WHERE id = 1\<close>\<close>

definition set_watermark :: "int \<Rightarrow> database \<Rightarrow> database" where
  "set_watermark m tx = tx\<lparr>polling_state := map_option (map_option (\<lambda>w. m)) (polling_state tx)\<rparr>"

text \<open>
  The \<^verbatim>\<open>for rows.Next()\<close> loop. A row whose \<^verbatim>\<open>Scan\<close> or whose \<^verbatim>\<open>UPDATE\<close> fails is
  logged and left (\<^verbatim>\<open>continue\<close>); after a successful \<^verbatim>\<open>UPDATE\<close>, \<^verbatim>\<open>maxID = id\<close>.
  The faults are looked up by the id of the row.
\<close>

fun mark_rows ::
  "poll_faults \<Rightarrow> (int \<times> int \<times> string) list \<Rightarrow> database \<Rightarrow> int \<Rightarrow> database \<times> int" where
  "mark_rows f [] tx maxID = (tx, maxID)"
| "mark_rows f ((i, oid, p) # rows) tx maxID =
     (if scan_fails f i then mark_rows f rows tx maxID
      else if mark_fails f i then mark_rows f rows tx maxID
      else mark_rows f rows (set_processed i tx) i)"

text \<open>
  How the transaction of one cycle ends. \<^verbatim>\<open>defer tx.Rollback()\<close> stands inside a loop that
  never returns, so it never runs: a cycle that leaves by \<^verbatim>\<open>continue\<close> after \<^verbatim>\<open>Begin\<close>
  succeeded leaves its transaction open.
\<close>

datatype tx_end = NotBegun | LeftOpen | Committed | CommitFailed

definition read_watermark :: "poll_faults \<Rightarrow> database \<Rightarrow> int option" where
  "read_watermark f tx = (if read_fails f then None else watermark tx)"

definition query_changes :: "poll_faults \<Rightarrow> database \<Rightarrow> int \<Rightarrow> (int \<times> int \<times> string) list option" where
  "query_changes f tx lastID =
     (if query_fails f then None
      else (case orders tx of
        None \<Rightarrow> None
      | Some os \<Rightarrow> (case priority_changes tx of
           None \<Rightarrow> None
         | Some cs \<Rightarrow> Some (select_changes os cs lastID))))"

definition advance :: "poll_faults \<Rightarrow> int \<Rightarrow> int \<Rightarrow> database \<Rightarrow> database" where
  "advance f lastID maxID tx =
     (if lastID < maxID then (if advance_fails f then tx else set_watermark maxID tx) else tx)"

text \<open>One pass of the body of the \<^verbatim>\<open>for\<close> loop of \<^verbatim>\<open>pollForPriorityChanges\<close>.\<close>

definition poll_cycle :: "poll_faults \<Rightarrow> database \<Rightarrow> database \<times> tx_end" where
  "poll_cycle f db =
     (if begin_fails f then (db, NotBegun)
      else (case read_watermark f db of
        None \<Rightarrow> (db, LeftOpen)
      | Some lastID \<Rightarrow> (case query_changes f db lastID of
           None \<Rightarrow> (db, LeftOpen)
         | Some rows \<Rightarrow>
             (case mark_rows f rows db 0 of
                (tx, maxID) \<Rightarrow>
                  if commit_fails f then (db, CommitFailed)
                  else (advance f lastID maxID tx, Committed)))))"

text \<open>The loop itself never returns; it is run for one cycle per element of the list.\<close>

fun pollForPriorityChanges :: "poll_faults list \<Rightarrow> database \<Rightarrow> database" where
  "pollForPriorityChanges [] db = db"
| "pollForPriorityChanges (f # fs) db = pollForPriorityChanges fs (fst (poll_cycle f db))"

section \<open>The request handlers\<close>

datatype response = MethodNotAllowed | BadRequest | InternalServerError | SeeOther | StatusOK

record handler_faults =
  parse_fails :: bool
  tx_begin_fails :: bool
  prepare_update_fails :: bool
  update_fails :: bool
  prepare_insert_fails :: bool
  insert_fails :: bool
  tx_commit_fails :: bool
  last_insert_id_fails :: bool

definition handler_ok :: handler_faults where
  "handler_ok = \<lparr>parse_fails = False, tx_begin_fails = False, prepare_update_fails = False,
                 update_fails = False, prepare_insert_fails = False, insert_fails = False,
                 tx_commit_fails = False, last_insert_id_fails = False\<rparr>"

text \<open>
  \<^verbatim>\<open>POST /orders\<close>: one \<^verbatim>\<open>INSERT\<close> outside any transaction. The five form values are
  passed as they come.
\<close>

definition insert_order :: "string \<Rightarrow> string \<Rightarrow> string \<Rightarrow> string \<Rightarrow> string \<Rightarrow> order_row list \<Rightarrow> order_row list" where
  "insert_order cn pn q sa pr os =
     os @ [\<lparr>o_id = next_id (map o_id os), customer_name = cn, product_name = pn,
            quantity = q, shipping_address = sa, priority = pr\<rparr>]"

definition orders_handler ::
  "handler_faults \<Rightarrow> string \<Rightarrow> string \<Rightarrow> string \<Rightarrow> string \<Rightarrow> string \<Rightarrow> string \<Rightarrow> database
     \<Rightarrow> response \<times> database" where
  "orders_handler f method cn pn q sa pr db =
     (if method \<noteq> ''POST'' then (MethodNotAllowed, db)
      else if parse_fails f then (BadRequest, db)
      else if prepare_insert_fails f then (InternalServerError, db)
      else (case orders db of
        None \<Rightarrow> (InternalServerError, db)
      | Some os \<Rightarrow>
          if insert_fails f then (InternalServerError, db)
          else let db' = db\<lparr>orders := Some (insert_order cn pn q sa pr os)\<rparr> in
            if last_insert_id_fails f then (InternalServerError, db') else (SeeOther, db')))"

text \<open>
  \<^verbatim>\<open>PATCH /orders/priority\<close>. The form value \<^verbatim>\<open>id\<close> is taken as the integer that the
  \<^verbatim>\<open>INTEGER\<close> columns compare it as. The handler returns at every error, and its
  \<^verbatim>\<open>defer tx.Rollback()\<close> then drops the transaction. The result of the \<^verbatim>\<open>UPDATE\<close>
  (the number of rows changed) is discarded by the handler.

  The schema declares \<^verbatim>\<open>FOREIGN KEY(order_id) REFERENCES orders(id)\<close>. Whether SQLite
  checks it is a setting of the connection, the parameter \<open>fk\<close>: when on, the
  \<^verbatim>\<open>INSERT\<close> fails for an order id that is not in \<^verbatim>\<open>orders\<close>. \<^verbatim>\<open>main\<close> opens
  \<^verbatim>\<open>"./orders.db"\<close> with no option and runs no \<^verbatim>\<open>PRAGMA\<close>, which leaves SQLite's default:
  off.
\<close>

definition main_foreign_keys :: bool where
  "main_foreign_keys = False"

definition update_priority :: "int \<Rightarrow> order_row list \<Rightarrow> order_row list" where
  "update_priority i os = map (\<lambda>r. if o_id r = i then r\<lparr>priority := ''high''\<rparr> else r) os"

definition insert_change :: "int \<Rightarrow> change_row list \<Rightarrow> change_row list" where
  "insert_change i cs =
     cs @ [\<lparr>pc_id = next_id (map pc_id cs), order_id = i, pc_priority = ''high'',
            processed = False\<rparr>]"

definition priority_handler ::
  "bool \<Rightarrow> handler_faults \<Rightarrow> string \<Rightarrow> int \<Rightarrow> database \<Rightarrow> response \<times> database" where
  "priority_handler fk f method orderID db =
     (if method \<noteq> ''PATCH'' then (MethodNotAllowed, db)
      else if parse_fails f then (BadRequest, db)
      else if tx_begin_fails f then (InternalServerError, db)
      else if prepare_update_fails f then (InternalServerError, db)
      else (case orders db of
        None \<Rightarrow> (InternalServerError, db)
      | Some os \<Rightarrow>
          if update_fails f then (InternalServerError, db)
          else let tx1 = db\<lparr>orders := Some (update_priority orderID os)\<rparr> in
            if prepare_insert_fails f then (InternalServerError, db)
            else (case priority_changes tx1 of
              None \<Rightarrow> (InternalServerError, db)
            | Some cs \<Rightarrow>
                if insert_fails f \<or> (fk \<and> orderID \<notin> set (map o_id os))
                then (InternalServerError, db)
                else let tx2 = tx1\<lparr>priority_changes := Some (insert_change orderID cs)\<rparr> in
                  if tx_commit_fails f then (InternalServerError, db) else (StatusOK, tx2))))"

section \<open>Runs of the whole program\<close>

text \<open>
  What can happen to the store, one step at a time: a start of the process (\<^verbatim>\<open>initDB\<close>),
  a cycle of the poller, or one of the two requests, as \<^verbatim>\<open>main\<close> wires them.
\<close>

datatype action =
    Start init_faults
  | Poll poll_faults
  | PostOrder handler_faults string string string string string string
  | PatchPriority handler_faults string int

fun step :: "action \<Rightarrow> database \<Rightarrow> database" where
  "step (Start f) db = snd (initDB f db)"
| "step (Poll f) db = fst (poll_cycle f db)"
| "step (PostOrder f m cn pn q sa pr) db = snd (orders_handler f m cn pn q sa pr db)"
| "step (PatchPriority f m i) db = snd (priority_handler main_foreign_keys f m i db)"

fun run :: "action list \<Rightarrow> database \<Rightarrow> database" where
  "run [] db = db"
| "run (a # acts) db = run acts (step a db)"

text \<open>
  The order an event refers to satisfies the filter of the poller
  (\<^verbatim>\<open>o.product_name = 'ninja'\<close> on the joined row).
\<close>

definition matches :: "database \<Rightarrow> change_row \<Rightarrow> bool" where
  "matches db pc = (\<exists>r \<in> set (orders_of db). o_id r = order_id pc \<and> product_name r = ''ninja'')"

text \<open>The primary keys: no two rows of a table share an id.\<close>

definition keys_ok :: "database \<Rightarrow> bool" where
  "keys_ok db = (distinct (map o_id (orders_of db)) \<and> distinct (map pc_id (changes_of db)))"

section \<open>Auxiliary definitions\<close>

text \<open>
  What the loop of a cycle does, in closed form: the ids whose \<^verbatim>\<open>UPDATE\<close> ran, all the
  rows with one of these ids marked at once, and the value \<^verbatim>\<open>maxID\<close> ends with.
\<close>

definition marked_ids :: "poll_faults \<Rightarrow> (int \<times> int \<times> string) list \<Rightarrow> int list" where
  "marked_ids f rows = filter (\<lambda>i. \<not> scan_fails f i \<and> \<not> mark_fails f i) (map fst rows)"

definition mark_all :: "int set \<Rightarrow> database \<Rightarrow> database" where
  "mark_all S tx =
     tx\<lparr>priority_changes :=
          map_option (map (\<lambda>pc. if pc_id pc \<in> S then pc\<lparr>processed := True\<rparr> else pc))
            (priority_changes tx)\<rparr>"

definition last_or :: "int \<Rightarrow> int list \<Rightarrow> int" where
  "last_or m xs = (if xs = [] then m else last xs)"

text \<open>Rows and stores for the scenarios.\<close>

definition an_order :: "int \<Rightarrow> string \<Rightarrow> string \<Rightarrow> order_row" where
  "an_order i pn pr = \<lparr>o_id = i, customer_name = ''ann'', product_name = pn, quantity = ''2'',
                       shipping_address = ''1 main street'', priority = pr\<rparr>"

definition a_change :: "int \<Rightarrow> int \<Rightarrow> bool \<Rightarrow> change_row" where
  "a_change i oid b = \<lparr>pc_id = i, order_id = oid, pc_priority = ''high'', processed = b\<rparr>"

definition two_pending :: database where
  "two_pending = \<lparr>orders = Some [an_order 1 ''ninja'' ''high''],
                  priority_changes = Some [a_change 1 1 False, a_change 2 1 False],
                  polling_state = Some (Some 0)\<rparr>"

definition two_done :: database where
  "two_done = \<lparr>orders = Some [an_order 1 ''ninja'' ''high''],
               priority_changes = Some [a_change 1 1 True, a_change 2 1 True],
               polling_state = Some (Some 2)\<rparr>"


text \<open>
  A store as the program keeps it: the primary keys hold and the watermark, when there is
  one, is not negative (it starts at 0).
\<close>

definition well_formed :: "database \<Rightarrow> bool" where
  "well_formed db = (keys_ok db \<and> (case watermark db of None \<Rightarrow> True | Some w \<Rightarrow> 0 \<le> w))"



definition one_order :: "order_row \<Rightarrow> database" where
  "one_order r = \<lparr>orders = Some [r], priority_changes = Some [], polling_state = Some (Some 0)\<rparr>"

definition scan_fails_on :: "int \<Rightarrow> poll_faults" where
  "scan_fails_on i = poll_ok\<lparr>scan_fails := (\<lambda>j. j = i)\<rparr>"

definition mark_fails_on :: "int \<Rightarrow> poll_faults" where
  "mark_fails_on i = poll_ok\<lparr>mark_fails := (\<lambda>j. j = i)\<rparr>"

definition insert_fails_only :: handler_faults where
  "insert_fails_only = handler_ok\<lparr>insert_fails := True\<rparr>"

text \<open>
  An event that the \<^verbatim>\<open>SELECT\<close> of a cycle returns: above the watermark, pending, and of
  an order that satisfies the filter.
\<close>

definition pending_for :: "database \<Rightarrow> change_row \<Rightarrow> bool" where
  "pending_for db pc =
     (case watermark db of None \<Rightarrow> False
      | Some w \<Rightarrow> w < pc_id pc \<and> \<not> processed pc \<and> matches db pc)"

text \<open>A failure of one of the statements of a cycle that are not about one row.\<close>

definition cycle_fails :: "poll_faults \<Rightarrow> bool" where
  "cycle_fails f = (begin_fails f \<or> read_fails f \<or> query_fails f \<or> commit_fails f)"


text \<open>
  The store after the escalation of the only order \<open>r\<close> of a store without events, and the
  store after the cycle that processes the event.
\<close>

definition escalated :: "order_row \<Rightarrow> database" where
  "escalated r = \<lparr>orders = Some [r\<lparr>priority := ''high''\<rparr>],
                  priority_changes = Some [a_change 1 (o_id r) False],
                  polling_state = Some (Some 0)\<rparr>"

definition polled :: "order_row \<Rightarrow> database" where
  "polled r = \<lparr>orders = Some [r\<lparr>priority := ''high''\<rparr>],
               priority_changes = Some [a_change 1 (o_id r) True],
               polling_state = Some (Some 1)\<rparr>"

text \<open>
  Two events of one \<^verbatim>\<open>ninja\<close> order after a cycle in which the first row, or the second,
  was left out.
\<close>

definition first_lost :: database where
  "first_lost = \<lparr>orders = Some [an_order 1 ''ninja'' ''high''],
                 priority_changes = Some [a_change 1 1 False, a_change 2 1 True],
                 polling_state = Some (Some 2)\<rparr>"

definition first_done :: database where
  "first_done = \<lparr>orders = Some [an_order 1 ''ninja'' ''high''],
                 priority_changes = Some [a_change 1 1 True, a_change 2 1 False],
                 polling_state = Some (Some 1)\<rparr>"

definition commit_fails_only :: poll_faults where
  "commit_fails_only = poll_ok\<lparr>commit_fails := True\<rparr>"

section \<open>One cycle of the poller, in closed form\<close>

lemma mark_all_empty: "mark_all {} tx = tx"
  by (simp add: mark_all_def option.map_ident)

lemma mark_all_set_processed: "mark_all S (set_processed i tx) = mark_all (insert i S) tx"
  by (cases "priority_changes tx") (auto simp add: mark_all_def set_processed_def)

lemma mark_rows_eq:
  "mark_rows f rows tx m = (mark_all (set (marked_ids f rows)) tx, last_or m (marked_ids f rows))"
proof (induction rows arbitrary: tx m)
  case Nil
  then show ?case by (simp add: marked_ids_def mark_all_empty last_or_def)
next
  case (Cons r rows)
  obtain i oid p where r: "r = (i, oid, p)" by (cases r)
  show ?case
    using Cons.IH by (auto simp add: r marked_ids_def mark_all_set_processed last_or_def)
qed


lemma joined_set: "set (joined os cs) = {(pc, r). pc \<in> set cs \<and> r \<in> set os \<and> order_id pc = o_id r}"
  by (auto simp add: joined_def)

lemma select_ids_set:
  "set (map fst (select_changes os cs w)) =
     pc_id ` {pc \<in> set cs. (\<exists>r \<in> set os. o_id r = order_id pc \<and> product_name r = ''ninja'')
                 \<and> w < pc_id pc \<and> \<not> processed pc}"
  by (force simp add: select_changes_def comp_def joined_set image_iff)


lemma poll_cycle_shape:
  "fst (poll_cycle f db) = db \<or>
   (\<exists>w os cs. watermark db = Some w \<and> orders db = Some os \<and> priority_changes db = Some cs
      \<and> \<not> begin_fails f \<and> \<not> read_fails f \<and> \<not> query_fails f \<and> \<not> commit_fails f
      \<and> fst (poll_cycle f db) =
         advance f w (last_or 0 (marked_ids f (select_changes os cs w)))
           (mark_all (set (marked_ids f (select_changes os cs w))) db))"
proof (cases "begin_fails f \<or> commit_fails f \<or> read_watermark f db = None")
  case True
  then show ?thesis
    by (auto simp add: poll_cycle_def split: option.splits prod.splits)
next
  case False
  then obtain w where w: "read_watermark f db = Some w" by auto
  show ?thesis
  proof (cases "query_changes f db w")
    case None
    then show ?thesis using False w by (simp add: poll_cycle_def)
  next
    case (Some rows)
    then obtain os cs where "orders db = Some os" "priority_changes db = Some cs"
      "rows = select_changes os cs w" "\<not> query_fails f"
      by (auto simp add: query_changes_def split: if_splits option.splits)
    moreover have "watermark db = Some w" "\<not> read_fails f"
      using w by (auto simp add: read_watermark_def split: if_splits)
    ultimately show ?thesis using False w Some
      by (simp add: poll_cycle_def mark_rows_eq)
  qed
qed

lemma poll_cycle_cases:
  obtains (unchanged) "fst (poll_cycle f db) = db"
  | (committed) w os cs where "watermark db = Some w" "orders db = Some os"
      "priority_changes db = Some cs"
      "\<not> begin_fails f" "\<not> read_fails f" "\<not> query_fails f" "\<not> commit_fails f"
      "fst (poll_cycle f db) =
         advance f w (last_or 0 (marked_ids f (select_changes os cs w)))
           (mark_all (set (marked_ids f (select_changes os cs w))) db)"
  using poll_cycle_shape[of f db] by blast

lemma advance_fields:
  "orders (advance f w m tx) = orders tx"
  "priority_changes (advance f w m tx) = priority_changes tx"
  by (simp_all add: advance_def set_watermark_def)

lemma advance_watermark:
  "watermark tx = Some w \<Longrightarrow>
     watermark (advance f w m tx) = Some (if w < m \<and> \<not> advance_fails f then m else w)"
  by (auto simp add: advance_def set_watermark_def watermark_def split: option.splits)

lemma mark_all_fields:
  "orders (mark_all S tx) = orders tx"
  "polling_state (mark_all S tx) = polling_state tx"
  "watermark (mark_all S tx) = watermark tx"
  "orders_of (mark_all S tx) = orders_of tx"
  "changes_of (mark_all S tx) =
     map (\<lambda>pc. if pc_id pc \<in> S then pc\<lparr>processed := True\<rparr> else pc) (changes_of tx)"
  by (simp_all add: mark_all_def watermark_def orders_of_def changes_of_def split: option.splits)

lemma marked_ids_subset: "set (marked_ids f rows) \<subseteq> set (map fst rows)"
  by (auto simp add: marked_ids_def)


lemma marked_ids_selected:
  assumes "i \<in> set (marked_ids f (select_changes os cs w))"
  shows "\<exists>pc \<in> set cs. pc_id pc = i \<and> \<not> processed pc \<and> w < i
           \<and> (\<exists>r \<in> set os. o_id r = order_id pc \<and> product_name r = ''ninja'')
           \<and> \<not> scan_fails f i \<and> \<not> mark_fails f i"
proof -
  from assms have "i \<in> set (map fst (select_changes os cs w))"
    and nf: "\<not> scan_fails f i \<and> \<not> mark_fails f i"
    by (auto simp add: marked_ids_def)
  then have "i \<in> pc_id ` {pc \<in> set cs. (\<exists>r \<in> set os. o_id r = order_id pc \<and> product_name r = ''ninja'')
                 \<and> w < pc_id pc \<and> \<not> processed pc}"
    by (simp only: select_ids_set)
  with nf show ?thesis by auto
qed

lemma last_or_bound:
  "\<forall>i \<in> set xs. w < i \<Longrightarrow> xs \<noteq> [] \<Longrightarrow> w < last_or m xs"
  by (simp add: last_or_def)

text \<open>
  In a cycle the watermark never goes down, the orders are not written, a row at or below
  the watermark is not written, and a processed row stays as it is.
\<close>

lemma poll_cycle_watermark:
  assumes "watermark db = Some w"
  shows "\<exists>w'. watermark (fst (poll_cycle f db)) = Some w' \<and> w \<le> w'"
proof (cases f db rule: poll_cycle_cases)
  case unchanged
  then show ?thesis using assms by simp
next
  case (committed w0 os cs)
  then show ?thesis using assms
    by (auto simp add: advance_watermark mark_all_fields)
qed

lemma poll_cycle_orders: "orders (fst (poll_cycle f db)) = orders db"
  by (cases f db rule: poll_cycle_cases) (simp_all add: advance_fields mark_all_fields)

lemma poll_cycle_below:
  assumes "watermark db = Some w" "pc \<in> set (changes_of db)" "pc_id pc \<le> w"
  shows "pc \<in> set (changes_of (fst (poll_cycle f db)))"
proof (cases f db rule: poll_cycle_cases)
  case unchanged
  then show ?thesis using assms by simp
next
  case (committed w0 os cs)
  let ?ids = "marked_ids f (select_changes os cs w0)"
  have "pc_id pc \<notin> set ?ids"
    using marked_ids_selected[of "pc_id pc" f os cs w0] assms committed(1) by auto
  moreover have "changes_of (fst (poll_cycle f db)) =
      map (\<lambda>pc. if pc_id pc \<in> set ?ids then pc\<lparr>processed := True\<rparr> else pc) (changes_of db)"
    by (simp add: committed(8) changes_of_def advance_fields mark_all_def split: option.splits)
  ultimately show ?thesis using assms(2) by force
qed

lemma poll_cycle_processed:
  assumes "pc \<in> set (changes_of db)"
  shows "(processed pc \<longrightarrow> pc \<in> set (changes_of (fst (poll_cycle f db))))
       \<and> (pc \<in> set (changes_of (fst (poll_cycle f db)))
            \<or> pc\<lparr>processed := True\<rparr> \<in> set (changes_of (fst (poll_cycle f db))))"
proof (cases f db rule: poll_cycle_cases)
  case unchanged
  then show ?thesis using assms by simp
next
  case (committed w0 os cs)
  let ?ids = "marked_ids f (select_changes os cs w0)"
  have "changes_of (fst (poll_cycle f db)) =
      map (\<lambda>pc. if pc_id pc \<in> set ?ids then pc\<lparr>processed := True\<rparr> else pc) (changes_of db)"
    by (simp add: committed(8) changes_of_def advance_fields mark_all_def split: option.splits)
  then show ?thesis using assms by force
qed

section \<open>The other steps, and runs\<close>

lemma initDB_rows:
  "changes_of (snd (initDB f db)) = changes_of db"
  "orders_of (snd (initDB f db)) = orders_of db"
  by (auto simp add: initDB_def create_if_absent_def Let_def changes_of_def orders_of_def
      split: option.splits)

lemma initDB_watermark: "watermark db = Some w \<Longrightarrow> watermark (snd (initDB f db)) = Some w"
  by (auto simp add: initDB_def create_if_absent_def Let_def watermark_def split: option.splits)

lemma orders_handler_shape:
  "snd (orders_handler f m cn pn q sa pr db) = db \<or>
   (\<exists>os. orders db = Some os \<and>
      snd (orders_handler f m cn pn q sa pr db) = db\<lparr>orders := Some (insert_order cn pn q sa pr os)\<rparr>)"
  by (auto simp add: orders_handler_def Let_def split: option.splits)

lemma priority_handler_shape:
  "(fst (priority_handler fk f m i db) \<noteq> StatusOK \<and> snd (priority_handler fk f m i db) = db) \<or>
   (fst (priority_handler fk f m i db) = StatusOK \<and>
     (\<exists>os cs. orders db = Some os \<and> priority_changes db = Some cs \<and> (fk \<longrightarrow> i \<in> o_id ` set os) \<and>
        snd (priority_handler fk f m i db) =
          db\<lparr>orders := Some (update_priority i os),
             priority_changes := Some (insert_change i cs)\<rparr>))"
  by (auto simp add: priority_handler_def Let_def split: option.splits)

lemma orders_handler_rows:
  "changes_of (snd (orders_handler f m cn pn q sa pr db)) = changes_of db"
  "watermark (snd (orders_handler f m cn pn q sa pr db)) = watermark db"
  using orders_handler_shape[of f m cn pn q sa pr db]
  by (auto simp add: changes_of_def watermark_def)

lemma priority_handler_rows:
  "pc \<in> set (changes_of db) \<Longrightarrow> pc \<in> set (changes_of (snd (priority_handler fk f m i db)))"
  "watermark (snd (priority_handler fk f m i db)) = watermark db"
  using priority_handler_shape[of fk f m i db]
  by (auto simp add: changes_of_def insert_change_def watermark_def)

lemma step_watermark:
  "watermark db = Some w \<Longrightarrow> \<exists>w'. watermark (step a db) = Some w' \<and> w \<le> w'"
  by (cases a) (simp_all add: initDB_watermark poll_cycle_watermark
      orders_handler_rows priority_handler_rows)

lemma step_below:
  "watermark db = Some w \<Longrightarrow> pc \<in> set (changes_of db) \<Longrightarrow> pc_id pc \<le> w
     \<Longrightarrow> pc \<in> set (changes_of (step a db))"
  by (cases a) (simp_all add: initDB_rows poll_cycle_below orders_handler_rows
      priority_handler_rows)

lemma step_processed:
  assumes "pc \<in> set (changes_of db)"
  shows "(processed pc \<longrightarrow> pc \<in> set (changes_of (step a db)))
       \<and> (pc \<in> set (changes_of (step a db)) \<or> pc\<lparr>processed := True\<rparr> \<in> set (changes_of (step a db)))"
proof (cases a)
  case (Poll f)
  then show ?thesis using poll_cycle_processed[OF assms, of f] by simp
qed (use assms in \<open>simp_all add: initDB_rows orders_handler_rows priority_handler_rows\<close>)

lemma run_watermark:
  "watermark db = Some w \<Longrightarrow> \<exists>w'. watermark (run acts db) = Some w' \<and> w \<le> w'"
proof (induction acts arbitrary: db w)
  case Nil
  then show ?case by simp
next
  case (Cons a acts)
  from step_watermark[OF Cons.prems, of a]
  obtain w1 where w1: "watermark (step a db) = Some w1" "w \<le> w1" by blast
  from Cons.IH[OF w1(1)] w1(2) show ?case by fastforce
qed

lemma run_below:
  "watermark db = Some w \<Longrightarrow> pc \<in> set (changes_of db) \<Longrightarrow> pc_id pc \<le> w
     \<Longrightarrow> pc \<in> set (changes_of (run acts db))"
proof (induction acts arbitrary: db w)
  case Nil
  then show ?case by simp
next
  case (Cons a acts)
  from step_watermark[OF Cons.prems(1), of a]
  obtain w1 where w1: "watermark (step a db) = Some w1" "w \<le> w1" by blast
  have "pc \<in> set (changes_of (step a db))"
    using step_below Cons.prems by blast
  from Cons.IH[OF w1(1) this] w1(2) Cons.prems(3) show ?case by simp
qed

lemma run_append: "run (xs @ ys) db = run ys (run xs db)"
  by (induction xs arbitrary: db) simp_all

lemma poll_run: "pollForPriorityChanges fs db = run (map Poll fs) db"
  by (induction fs arbitrary: db) simp_all

lemma poll_cycle_changes:
  "changes_of (fst (poll_cycle f db)) = changes_of db \<or>
   (\<exists>w os cs. watermark db = Some w \<and> orders db = Some os \<and> priority_changes db = Some cs
      \<and> changes_of (fst (poll_cycle f db)) =
          map (\<lambda>pc. if pc_id pc \<in> set (marked_ids f (select_changes os cs w))
                     then pc\<lparr>processed := True\<rparr> else pc) cs)"
proof (cases f db rule: poll_cycle_cases)
  case unchanged
  then show ?thesis by simp
next
  case (committed w os cs)
  then show ?thesis
    by (simp add: changes_of_def advance_fields mark_all_def)
qed

lemma poll_cycle_idle:
  assumes "watermark db = Some w" "0 \<le> w"
    and same: "changes_of (fst (poll_cycle f db)) = changes_of db"
  shows "watermark (fst (poll_cycle f db)) = Some w"
proof (cases f db rule: poll_cycle_cases)
  case unchanged
  then show ?thesis using assms by simp
next
  case (committed w0 os cs)
  let ?ids = "marked_ids f (select_changes os cs w0)"
  have w0: "w0 = w" using committed(1) assms(1) by simp
  have "?ids = []"
  proof (rule ccontr)
    assume "?ids \<noteq> []"
    then obtain i where i: "i \<in> set ?ids" by (cases ?ids) auto
    from marked_ids_selected[OF i] obtain pc where
      pc: "pc \<in> set cs" "pc_id pc = i" "\<not> processed pc" by blast
    have "changes_of (fst (poll_cycle f db)) =
        map (\<lambda>pc. if pc_id pc \<in> set ?ids then pc\<lparr>processed := True\<rparr> else pc) cs"
      by (simp add: committed(3,8) changes_of_def advance_fields mark_all_def)
    with same committed(3)
    have "map (\<lambda>pc. if pc_id pc \<in> set ?ids then pc\<lparr>processed := True\<rparr> else pc) cs
            = map (\<lambda>pc. pc) cs"
      by (simp add: changes_of_def)
    then have "(if pc_id pc \<in> set ?ids then pc\<lparr>processed := True\<rparr> else pc) = pc"
      using pc(1) by (simp only: map_eq_conv)
    with i pc(2) have "pc\<lparr>processed := True\<rparr> = pc" by simp
    then have "processed (pc\<lparr>processed := True\<rparr>) = processed pc" by (rule arg_cong)
    then have "processed pc" by simp
    with pc(3) show False by simp
  qed
  then show ?thesis using assms committed(1,8)
    by (simp add: advance_watermark mark_all_fields last_or_def w0)
qed

section \<open>The watermark across cycles\<close>

text \<open>
  C3. From a store whose watermark is 0, after any sequence of steps (cycles of the poller
  with any failures, requests and restarts between them) the watermark is some \<open>w \<ge> 0\<close>,
  and one more cycle leaves a watermark \<open>w' \<ge> w\<close>: the watermark is never written with a
  smaller value. When that cycle marks no event (the table of events is as before), the
  watermark is as before.
\<close>

theorem watermark_non_decreasing:
  assumes "watermark db = Some 0"
  shows "\<exists>w w'. watermark (run acts db) = Some w \<and> 0 \<le> w
          \<and> watermark (fst (poll_cycle f (run acts db))) = Some w' \<and> w \<le> w'
          \<and> (changes_of (fst (poll_cycle f (run acts db))) = changes_of (run acts db)
               \<longrightarrow> w' = w)"
proof -
  from run_watermark[OF assms, of acts]
  obtain w where w: "watermark (run acts db) = Some w" "0 \<le> w" by blast
  from poll_cycle_watermark[OF w(1), of f]
  obtain w' where w': "watermark (fst (poll_cycle f (run acts db))) = Some w'" "w \<le> w'"
    by blast
  have "changes_of (fst (poll_cycle f (run acts db))) = changes_of (run acts db) \<Longrightarrow> w' = w"
    using poll_cycle_idle[OF w] w'(1) by simp
  with w w' show ?thesis by blast
qed

theorem watermark_non_decreasing_witness:
  "watermark two_pending = Some 0
   \<and> watermark (run [Poll poll_ok] two_pending) = Some 2
   \<and> watermark (fst (poll_cycle poll_ok (run [Poll poll_ok] two_pending))) = Some 2"
proof -
  have h: "watermark two_pending = Some 0"
    by (simp add: two_pending_def watermark_def)
  have r: "run [Poll poll_ok] two_pending = two_done"
    by code_simp
  have c: "changes_of (fst (poll_cycle poll_ok two_done)) = changes_of two_done"
    by code_simp
  have w: "watermark two_done = Some 2"
    by (simp add: two_done_def watermark_def)
  from watermark_non_decreasing [OF h, of "[Poll poll_ok]" poll_ok]
  have "watermark (fst (poll_cycle poll_ok two_done)) = Some 2"
    unfolding r using c w by auto
  with h r w show ?thesis by simp
qed

section \<open>Processed is terminal\<close>

text \<open>
  C9. An event of the store that is processed is still there, processed and with the same
  columns, after any sequence of steps of the program. An event of the store is, after any
  sequence of steps, either as it was or the same row with \<open>processed = True\<close>: the only
  change an event undergoes is from pending to processed.
\<close>

theorem processed_is_terminal:
  "pc \<in> set (changes_of db) \<Longrightarrow>
     (processed pc \<longrightarrow> pc \<in> set (changes_of (run acts db)))
     \<and> (pc \<in> set (changes_of (run acts db))
          \<or> pc\<lparr>processed := True\<rparr> \<in> set (changes_of (run acts db)))"
proof (induction acts arbitrary: db pc)
  case Nil
  then show ?case by simp
next
  case (Cons a acts)
  from step_processed[OF Cons.prems, of a]
  consider "pc \<in> set (changes_of (step a db))"
    | "\<not> processed pc" "pc\<lparr>processed := True\<rparr> \<in> set (changes_of (step a db))"
    by blast
  then show ?case
  proof cases
    case 1
    from Cons.IH[OF 1] show ?thesis by simp
  next
    case 2
    from Cons.IH[OF 2(2)] 2(1) show ?thesis by simp
  qed
qed

theorem processed_is_terminal_witness:
  "a_change 1 1 True \<in> set (changes_of two_done)
   \<and> processed (a_change 1 1 True)
   \<and> a_change 1 1 True
        \<in> set (changes_of (run [Poll poll_ok, PatchPriority handler_ok ''PATCH'' 1,
                                 Start init_ok, Poll poll_ok] two_done))"
proof -
  have h: "a_change 1 1 True \<in> set (changes_of two_done)"
    by (simp add: two_done_def changes_of_def)
  have p: "processed (a_change 1 1 True)"
    by (simp add: a_change_def)
  from processed_is_terminal [OF h, of "[Poll poll_ok, PatchPriority handler_ok ''PATCH'' 1,
                                   Start init_ok, Poll poll_ok]"] h p
  show ?thesis by blast
qed

section \<open>Events of orders that the filter rejects\<close>

lemma next_id_bound: "i \<in> set ids \<Longrightarrow> i < next_id ids"
  unfolding next_id_def by (induction ids) auto

lemma next_id_fresh: "next_id ids \<notin> set ids"
  using next_id_bound by fastforce






lemma update_priority_keys: "map o_id (update_priority i os) = map o_id os"
  by (simp add: update_priority_def)



lemma poll_cycle_keys:
  "map pc_id (changes_of (fst (poll_cycle f db))) = map pc_id (changes_of db)"
  "orders_of (fst (poll_cycle f db)) = orders_of db"
proof -
  show "map pc_id (changes_of (fst (poll_cycle f db))) = map pc_id (changes_of db)"
    using poll_cycle_changes[of f db] by (auto simp add: changes_of_def comp_def)
  show "orders_of (fst (poll_cycle f db)) = orders_of db"
    by (simp add: orders_of_def poll_cycle_orders)
qed


lemma step_keys_ok:
  assumes k: "keys_ok db"
  shows "keys_ok (step a db)"
proof (cases a)
  case (Start f)
  then show ?thesis using k by (simp add: keys_ok_def initDB_rows)
next
  case (Poll f)
  then show ?thesis using k by (simp add: keys_ok_def poll_cycle_keys)
next
  case (PostOrder f m cn pn q sa pr)
  from orders_handler_shape[of f m cn pn q sa pr db] show ?thesis
  proof
    assume "snd (orders_handler f m cn pn q sa pr db) = db"
    then show ?thesis using k PostOrder by simp
  next
    assume "\<exists>os. orders db = Some os \<and>
      snd (orders_handler f m cn pn q sa pr db) = db\<lparr>orders := Some (insert_order cn pn q sa pr os)\<rparr>"
    then obtain os where os: "orders db = Some os"
      "snd (orders_handler f m cn pn q sa pr db) = db\<lparr>orders := Some (insert_order cn pn q sa pr os)\<rparr>"
      by blast
    then show ?thesis using k PostOrder next_id_fresh[of "map o_id os"]
      by (simp add: keys_ok_def orders_of_def changes_of_def insert_order_def)
  qed
next
  case (PatchPriority f m i)
  from priority_handler_shape[of main_foreign_keys f m i db] show ?thesis
  proof
    assume "fst (priority_handler main_foreign_keys f m i db) \<noteq> StatusOK \<and>
      snd (priority_handler main_foreign_keys f m i db) = db"
    then show ?thesis using k PatchPriority by simp
  next
    assume "fst (priority_handler main_foreign_keys f m i db) = StatusOK \<and>
     (\<exists>os cs. orders db = Some os \<and> priority_changes db = Some cs \<and>
        (main_foreign_keys \<longrightarrow> i \<in> o_id ` set os) \<and>
        snd (priority_handler main_foreign_keys f m i db) =
          db\<lparr>orders := Some (update_priority i os),
             priority_changes := Some (insert_change i cs)\<rparr>)"
    then obtain os cs where os: "orders db = Some os" "priority_changes db = Some cs"
      "snd (priority_handler main_foreign_keys f m i db) =
          db\<lparr>orders := Some (update_priority i os),
             priority_changes := Some (insert_change i cs)\<rparr>"
      by blast
    then show ?thesis using k PatchPriority next_id_fresh[of "map pc_id cs"]
      by (simp add: keys_ok_def orders_of_def changes_of_def insert_change_def
          update_priority_keys)
  qed
qed







text \<open>
  Every store that the program reaches from the empty one is well-formed.
\<close>

lemma initDB_watermark_cases:
  "watermark (snd (initDB f db)) = watermark db \<or> watermark (snd (initDB f db)) = Some 0"
  by (auto simp add: initDB_def create_if_absent_def Let_def watermark_def split: option.splits)

lemma poll_cycle_no_watermark:
  "watermark db = None \<Longrightarrow> fst (poll_cycle f db) = db"
  by (simp add: poll_cycle_def read_watermark_def)

lemma step_well_formed:
  assumes "well_formed db"
  shows "well_formed (step a db)"
proof -
  have k: "keys_ok (step a db)"
    using assms by (simp add: well_formed_def step_keys_ok)
  have "case watermark (step a db) of None \<Rightarrow> True | Some w \<Rightarrow> 0 \<le> w"
  proof (cases "watermark db")
    case None
    show ?thesis
    proof (cases a)
      case (Start f)
      then show ?thesis using initDB_watermark_cases[of f db] None by auto
    next
      case (Poll f)
      then show ?thesis using None by (simp add: poll_cycle_no_watermark)
    qed (simp_all add: None orders_handler_rows priority_handler_rows)
  next
    case (Some w)
    then have "0 \<le> w" using assms by (simp add: well_formed_def)
    moreover from step_watermark[OF Some, of a]
    obtain w' where "watermark (step a db) = Some w'" "w \<le> w'" by blast
    ultimately show ?thesis by simp
  qed
  with k show ?thesis by (simp add: well_formed_def)
qed

lemma run_well_formed: "well_formed db \<Longrightarrow> well_formed (run acts db)"
  by (induction acts arbitrary: db) (simp_all add: step_well_formed)

lemma no_tables_well_formed: "well_formed no_tables"
  by (simp add: well_formed_def keys_ok_def no_tables_def orders_of_def changes_of_def
      watermark_def)



section \<open>The escalation of a priority\<close>

lemma update_priority_high:
  assumes "r \<in> set (update_priority i os)" "o_id r = i"
  shows "priority r = ''high''"
proof -
  from assms(1) obtain r0 where r0: "r0 \<in> set os"
    "r = (if o_id r0 = i then r0\<lparr>priority := ''high''\<rparr> else r0)"
    unfolding update_priority_def by auto
  show ?thesis
  proof (cases "o_id r0 = i")
    case True
    with r0(2) show ?thesis by simp
  next
    case False
    with r0(2) assms(2) show ?thesis by simp
  qed
qed

lemma priority_handler_ok:
  assumes "fst (priority_handler fk f m i db) = StatusOK"
  shows "\<exists>os cs. orders db = Some os \<and> priority_changes db = Some cs \<and>
        snd (priority_handler fk f m i db) =
          db\<lparr>orders := Some (update_priority i os),
             priority_changes := Some (insert_change i cs)\<rparr>"
  using priority_handler_shape[of fk f m i db] assms by auto

lemma priority_handler_not_ok:
  assumes "fst (priority_handler fk f m i db) \<noteq> StatusOK"
  shows "snd (priority_handler fk f m i db) = db"
  using priority_handler_shape[of fk f m i db] assms by auto

lemma update_priority_missing: "i \<notin> o_id ` set os \<Longrightarrow> update_priority i os = os"
  unfolding update_priority_def by (induction os) simp_all

lemma missing_order_unchecked:
  assumes "orders db = Some os" "priority_changes db = Some cs" "i \<notin> o_id ` set os"
  shows "priority_handler False handler_ok ''PATCH'' i db =
           (StatusOK, db\<lparr>priority_changes := Some (insert_change i cs)\<rparr>)"
proof -
  have "fst (priority_handler False handler_ok ''PATCH'' i db) = StatusOK"
    using assms(1,2) by (simp add: priority_handler_def handler_ok_def Let_def)
  from priority_handler_ok[OF this] assms(1,2)
  have "snd (priority_handler False handler_ok ''PATCH'' i db) =
          db\<lparr>orders := Some (update_priority i os),
             priority_changes := Some (insert_change i cs)\<rparr>"
    by simp
  also have "\<dots> = db\<lparr>priority_changes := Some (insert_change i cs)\<rparr>"
    using assms(1) by (simp add: update_priority_missing[OF assms(3)])
  finally show ?thesis
    using \<open>fst (priority_handler False handler_ok ''PATCH'' i db) = StatusOK\<close>
    by (simp add: prod_eq_iff)
qed

lemma missing_order_foreign_keys:
  assumes "i \<notin> o_id ` set (orders_of db)"
  shows "fst (priority_handler True f m i db) \<noteq> StatusOK
       \<and> snd (priority_handler True f m i db) = db"
proof (cases "fst (priority_handler True f m i db) = StatusOK")
  case True
  with priority_handler_shape[of True f m i db] assms show ?thesis
    by (auto simp add: orders_of_def)
next
  case False
  then show ?thesis by (simp add: priority_handler_not_ok)
qed

text \<open>
  What holds of every call of the handler of \<^verbatim>\<open>PATCH /orders/priority\<close>, for every
  pattern of failing statements and every setting of the foreign keys. Either the call is
  answered with an error and the store is as it was, or it is answered 200 and the effects
  of both statements are in the store: the orders are those before with the \<^verbatim>\<open>UPDATE\<close>
  applied, and the events are those before followed by one new row with a fresh id, the
  given order id, priority \<^verbatim>\<open>high\<close> and \<open>processed = False\<close>. When an order with the
  given id is in the store, it has priority \<^verbatim>\<open>high\<close> afterwards. The watermark is not
  written.
\<close>

lemma update_priority_existing:
  assumes "i \<in> o_id ` set os"
  shows "\<exists>r \<in> set (update_priority i os). o_id r = i \<and> priority r = ''high''"
proof -
  from assms obtain r0 where r0: "r0 \<in> set os" "o_id r0 = i" by blast
  have "(\<lambda>r. if o_id r = i then r\<lparr>priority := ''high''\<rparr> else r) r0
          \<in> set (update_priority i os)"
    unfolding update_priority_def using r0(1) by (simp only: set_map image_eqI)
  then have "r0\<lparr>priority := ''high''\<rparr> \<in> set (update_priority i os)"
    using r0(2) by simp
  moreover have "o_id (r0\<lparr>priority := ''high''\<rparr>) = i" "priority (r0\<lparr>priority := ''high''\<rparr>) = ''high''"
    using r0(2) by simp_all
  ultimately show ?thesis by blast
qed

lemma escalation_all_or_nothing:
  "(fst (priority_handler fk f m i db) \<noteq> StatusOK \<and> snd (priority_handler fk f m i db) = db)
   \<or> (fst (priority_handler fk f m i db) = StatusOK
       \<and> orders_of (snd (priority_handler fk f m i db)) = update_priority i (orders_of db)
       \<and> (\<forall>r \<in> set (orders_of (snd (priority_handler fk f m i db))).
             o_id r = i \<longrightarrow> priority r = ''high'')
       \<and> (i \<in> o_id ` set (orders_of db) \<longrightarrow>
             (\<exists>r \<in> set (orders_of (snd (priority_handler fk f m i db))).
                o_id r = i \<and> priority r = ''high''))
       \<and> changes_of (snd (priority_handler fk f m i db)) =
            changes_of db @ [\<lparr>pc_id = next_id (map pc_id (changes_of db)), order_id = i,
                              pc_priority = ''high'', processed = False\<rparr>]
       \<and> polling_state (snd (priority_handler fk f m i db)) = polling_state db)"
proof (cases "fst (priority_handler fk f m i db) = StatusOK")
  case False
  then show ?thesis by (simp add: priority_handler_not_ok)
next
  case True
  from priority_handler_ok[OF True] obtain os cs where
    t: "orders db = Some os" "priority_changes db = Some cs"
    and r: "snd (priority_handler fk f m i db) =
          db\<lparr>orders := Some (update_priority i os),
             priority_changes := Some (insert_change i cs)\<rparr>"
    by blast
  have 1: "orders_of (snd (priority_handler fk f m i db)) = update_priority i (orders_of db)"
    by (simp add: r t orders_of_def)
  have 2: "changes_of (snd (priority_handler fk f m i db)) =
            changes_of db @ [\<lparr>pc_id = next_id (map pc_id (changes_of db)), order_id = i,
                              pc_priority = ''high'', processed = False\<rparr>]"
    by (simp add: r t changes_of_def insert_change_def)
  have 3: "polling_state (snd (priority_handler fk f m i db)) = polling_state db"
    by (simp add: r)
  have 4: "\<forall>r \<in> set (orders_of (snd (priority_handler fk f m i db))).
             o_id r = i \<longrightarrow> priority r = ''high''"
    unfolding 1 using update_priority_high by blast
  have 5: "i \<in> o_id ` set (orders_of db) \<longrightarrow>
             (\<exists>r \<in> set (orders_of (snd (priority_handler fk f m i db))).
                o_id r = i \<and> priority r = ''high'')"
    unfolding 1 using update_priority_existing by blast
  from True 1 2 3 4 5 show ?thesis by blast
qed

lemma escalation_all_or_nothing_example:
  "fst (priority_handler main_foreign_keys insert_fails_only ''PATCH'' 1
          (one_order (an_order 1 ''ninja'' ''normal''))) = InternalServerError
   \<and> snd (priority_handler main_foreign_keys insert_fails_only ''PATCH'' 1
          (one_order (an_order 1 ''ninja'' ''normal''))) = one_order (an_order 1 ''ninja'' ''normal'')
   \<and> fst (priority_handler main_foreign_keys handler_ok ''PATCH'' 1
          (one_order (an_order 1 ''ninja'' ''normal''))) = StatusOK
   \<and> orders_of (snd (priority_handler main_foreign_keys handler_ok ''PATCH'' 1
          (one_order (an_order 1 ''ninja'' ''normal'')))) = [an_order 1 ''ninja'' ''high'']
   \<and> changes_of (snd (priority_handler main_foreign_keys handler_ok ''PATCH'' 1
          (one_order (an_order 1 ''ninja'' ''normal'')))) = [a_change 1 1 False]"
proof -
  let ?db = "one_order (an_order 1 ''ninja'' ''normal'')"
  have a: "fst (priority_handler main_foreign_keys insert_fails_only ''PATCH'' 1 ?db)
      = InternalServerError" by code_simp
  have b: "fst (priority_handler main_foreign_keys handler_ok ''PATCH'' 1 ?db) = StatusOK"
    by code_simp
  have c: "update_priority 1 (orders_of ?db) = [an_order 1 ''ninja'' ''high'']" by code_simp
  have d: "changes_of ?db @ [\<lparr>pc_id = next_id (map pc_id (changes_of ?db)), order_id = 1,
                              pc_priority = ''high'', processed = False\<rparr>] = [a_change 1 1 False]"
    by code_simp
  from escalation_all_or_nothing [of main_foreign_keys insert_fails_only "''PATCH''" 1 ?db] a
  have 1: "snd (priority_handler main_foreign_keys insert_fails_only ''PATCH'' 1 ?db) = ?db"
    by simp
  from escalation_all_or_nothing [of main_foreign_keys handler_ok "''PATCH''" 1 ?db] b
  have 2: "orders_of (snd (priority_handler main_foreign_keys handler_ok ''PATCH'' 1 ?db))
         = update_priority 1 (orders_of ?db)"
    and 3: "changes_of (snd (priority_handler main_foreign_keys handler_ok ''PATCH'' 1 ?db)) =
            changes_of ?db @ [\<lparr>pc_id = next_id (map pc_id (changes_of ?db)), order_id = 1,
                              pc_priority = ''high'', processed = False\<rparr>]"
    by blast+
  show ?thesis using a b 1 2 3 c d by (simp only: simp_thms)
qed

text \<open>
  C6. The claim is that, for every call, setting the priority of the order to \<^verbatim>\<open>high\<close> and
  appending the event happen together or not at all. For a call that names an order that
  is not in \<^verbatim>\<open>orders\<close> the code commits one without the other: with the connection as
  \<^verbatim>\<open>main\<close> opens it and no statement failing, the request for order 5 on a store whose
  only order is order 1 (priority \<^verbatim>\<open>normal\<close>) and that has no event is answered 200; after
  it the orders are as before, no order has priority \<^verbatim>\<open>high\<close>, and the event for order 5
  is in the store.
\<close>

theorem escalation_partial_write:
  "fst (priority_handler main_foreign_keys handler_ok ''PATCH'' 5
          (one_order (an_order 1 ''ninja'' ''normal''))) = StatusOK
   \<and> orders_of (one_order (an_order 1 ''ninja'' ''normal'')) = [an_order 1 ''ninja'' ''normal'']
   \<and> changes_of (one_order (an_order 1 ''ninja'' ''normal'')) = []
   \<and> orders_of (snd (priority_handler main_foreign_keys handler_ok ''PATCH'' 5
          (one_order (an_order 1 ''ninja'' ''normal'')))) = [an_order 1 ''ninja'' ''normal'']
   \<and> filter (\<lambda>r. priority r = ''high'')
        (orders_of (snd (priority_handler main_foreign_keys handler_ok ''PATCH'' 5
          (one_order (an_order 1 ''ninja'' ''normal''))))) = []
   \<and> changes_of (snd (priority_handler main_foreign_keys handler_ok ''PATCH'' 5
          (one_order (an_order 1 ''ninja'' ''normal'')))) = [a_change 1 5 False]"
  by code_simp

text \<open>
  C7. The claim is that a request for an order id that is not in \<^verbatim>\<open>orders\<close> gets an error
  and commits nothing. With the connection as \<^verbatim>\<open>main\<close> opens it, and no statement failing,
  the request for order 5 on a store whose only order is order 1 is answered 200, and an
  event for order 5 is committed: the \<^verbatim>\<open>UPDATE\<close> changes no row, which is no error, and the
  handler discards the count of rows. (\<open>missing_order_unchecked\<close> is the same for every
  store and id; \<open>missing_order_foreign_keys\<close> shows the request refused once the foreign
  key that the schema declares is enforced.)
\<close>

theorem missing_order_escalation:
  "priority_handler main_foreign_keys handler_ok ''PATCH'' 5
      (one_order (an_order 1 ''ninja'' ''normal''))
   = (StatusOK, \<lparr>orders = Some [an_order 1 ''ninja'' ''normal''],
                 priority_changes = Some [a_change 1 5 False],
                 polling_state = Some (Some 0)\<rparr>)"
  by code_simp

section \<open>Scenario A\<close>

lemma escalate_one_order:
  "priority_handler fk handler_ok ''PATCH'' (o_id r) (one_order r) = (StatusOK, escalated r)"
  by (simp add: priority_handler_def one_order_def handler_ok_def update_priority_def
      insert_change_def next_id_def a_change_def escalated_def)

lemma select_escalated:
  "product_name r = ''ninja'' \<Longrightarrow>
     select_changes [r\<lparr>priority := ''high''\<rparr>] [a_change 1 (o_id r) False] 0
       = [(1, o_id r, ''high'')]"
  by (simp add: select_changes_def joined_def a_change_def)

lemma poll_escalated:
  assumes "product_name r = ''ninja''"
  shows "poll_cycle poll_ok (escalated r) = (polled r, Committed)"
proof -
  have w: "read_watermark poll_ok (escalated r) = Some 0"
    by (simp add: read_watermark_def watermark_def escalated_def poll_ok_def)
  have q: "query_changes poll_ok (escalated r) 0 = Some [(1, o_id r, ''high'')]"
    using select_escalated[OF assms]
    by (simp add: query_changes_def escalated_def poll_ok_def)
  have m: "mark_rows poll_ok [(1, o_id r, ''high'')] (escalated r) 0
             = (set_processed 1 (escalated r), 1)"
    by (simp add: poll_ok_def)
  have a: "advance poll_ok 0 1 (set_processed 1 (escalated r)) = polled r"
    by (simp add: advance_def poll_ok_def set_watermark_def set_processed_def escalated_def
        polled_def a_change_def)
  have b: "\<not> begin_fails poll_ok" "\<not> commit_fails poll_ok" by (simp_all add: poll_ok_def)
  show ?thesis
    unfolding poll_cycle_def using w q m a b by simp
qed

text \<open>
  C8. From a store with one order, of product \<^verbatim>\<open>ninja\<close>, no event and watermark 0, the
  escalation of that order is answered 200 and leaves one event E1 (id 1, pending) with the
  watermark still 0. One cycle of the poller without failure then commits: E1 is processed,
  the watermark is the id of E1, and the priority of the order is \<^verbatim>\<open>high\<close>.
\<close>

theorem scenario_A:
  "product_name r = ''ninja'' \<Longrightarrow>
     priority_handler fk handler_ok ''PATCH'' (o_id r) (one_order r) = (StatusOK, escalated r)
     \<and> changes_of (escalated r) = [a_change 1 (o_id r) False]
     \<and> watermark (escalated r) = Some 0
     \<and> poll_cycle poll_ok (escalated r) = (polled r, Committed)
     \<and> changes_of (polled r) = [a_change 1 (o_id r) True]
     \<and> watermark (polled r) = Some (pc_id (a_change 1 (o_id r) True))
     \<and> map priority (orders_of (polled r)) = [''high'']"
proof -
  assume n: "product_name r = ''ninja''"
  have 1: "changes_of (escalated r) = [a_change 1 (o_id r) False]"
    and 2: "watermark (escalated r) = Some 0"
    by (simp_all add: changes_of_def watermark_def escalated_def)
  have 3: "changes_of (polled r) = [a_change 1 (o_id r) True]"
    and 4: "watermark (polled r) = Some (pc_id (a_change 1 (o_id r) True))"
    and 5: "map priority (orders_of (polled r)) = [''high'']"
    by (simp_all add: changes_of_def watermark_def orders_of_def polled_def a_change_def)
  from escalate_one_order[of fk r] poll_escalated[OF n] 1 2 3 4 5 show ?thesis
    by (simp only: simp_thms)
qed

theorem scenario_A_witness:
  "product_name (an_order 1 ''ninja'' ''normal'') = ''ninja''
   \<and> snd (orders_handler handler_ok ''POST'' ''ann'' ''ninja'' ''2'' ''1 main street'' ''normal''
            (snd (initDB init_ok no_tables))) = one_order (an_order 1 ''ninja'' ''normal'')
   \<and> priority_handler main_foreign_keys handler_ok ''PATCH'' 1
        (one_order (an_order 1 ''ninja'' ''normal''))
        = (StatusOK, escalated (an_order 1 ''ninja'' ''normal''))
   \<and> poll_cycle poll_ok (escalated (an_order 1 ''ninja'' ''normal''))
        = (polled (an_order 1 ''ninja'' ''normal''), Committed)
   \<and> changes_of (polled (an_order 1 ''ninja'' ''normal'')) = [a_change 1 1 True]
   \<and> watermark (polled (an_order 1 ''ninja'' ''normal'')) = Some 1
   \<and> orders_of (polled (an_order 1 ''ninja'' ''normal'')) = [an_order 1 ''ninja'' ''high'']"
proof -
  have n: "product_name (an_order 1 ''ninja'' ''normal'') = ''ninja''"
    by (simp add: an_order_def)
  have i: "o_id (an_order 1 ''ninja'' ''normal'') = 1"
    by (simp add: an_order_def)
  have c: "snd (orders_handler handler_ok ''POST'' ''ann'' ''ninja'' ''2'' ''1 main street''
            ''normal'' (snd (initDB init_ok no_tables))) = one_order (an_order 1 ''ninja'' ''normal'')"
    by code_simp
  have o: "orders_of (polled (an_order 1 ''ninja'' ''normal'')) = [an_order 1 ''ninja'' ''high'']"
    by code_simp
  from scenario_A [OF n, of main_foreign_keys] n c o show ?thesis
    by (simp add: i a_change_def)
qed

section \<open>Failures in a cycle\<close>

lemma cycle_fails_unchanged: "cycle_fails f \<Longrightarrow> fst (poll_cycle f db) = db"
  by (auto simp add: cycle_fails_def poll_cycle_def read_watermark_def query_changes_def
      split: option.splits prod.splits)

lemma poll_cycle_commits:
  assumes "\<not> cycle_fails f" "watermark db = Some w" "orders db = Some os"
    "priority_changes db = Some cs"
  shows "poll_cycle f db =
           (advance f w (last_or 0 (marked_ids f (select_changes os cs w)))
              (mark_all (set (marked_ids f (select_changes os cs w))) db), Committed)"
proof -
  have "read_watermark f db = Some w"
    using assms(1,2) by (simp add: read_watermark_def cycle_fails_def)
  moreover have "query_changes f db w = Some (select_changes os cs w)"
    using assms(1,3,4) by (simp add: query_changes_def cycle_fails_def)
  moreover have "\<not> begin_fails f" "\<not> commit_fails f"
    using assms(1) by (simp_all add: cycle_fails_def)
  ultimately show ?thesis
    by (simp add: poll_cycle_def mark_rows_eq)
qed

lemma failed_row_kept:
  assumes "pc \<in> set (changes_of db)" "scan_fails f (pc_id pc) \<or> mark_fails f (pc_id pc)"
  shows "pc \<in> set (changes_of (fst (poll_cycle f db)))"
proof -
  from poll_cycle_changes[of f db] show ?thesis
  proof
    assume "changes_of (fst (poll_cycle f db)) = changes_of db"
    then show ?thesis using assms(1) by simp
  next
    assume "\<exists>w os cs. watermark db = Some w \<and> orders db = Some os \<and> priority_changes db = Some cs
      \<and> changes_of (fst (poll_cycle f db)) =
          map (\<lambda>pc. if pc_id pc \<in> set (marked_ids f (select_changes os cs w))
                     then pc\<lparr>processed := True\<rparr> else pc) cs"
    then obtain w os cs where cs: "priority_changes db = Some cs"
      and c: "changes_of (fst (poll_cycle f db)) =
          map (\<lambda>pc. if pc_id pc \<in> set (marked_ids f (select_changes os cs w))
                     then pc\<lparr>processed := True\<rparr> else pc) cs"
      by blast
    have "pc_id pc \<notin> set (marked_ids f (select_changes os cs w))"
      using assms(2) by (auto simp add: marked_ids_def)
    moreover have "pc \<in> set cs" using assms(1) cs by (simp add: changes_of_def)
    ultimately show ?thesis unfolding c by force
  qed
qed

lemma pending_row_marked:
  assumes "pc \<in> set (changes_of db)" "\<not> cycle_fails f" "pending_for db pc"
    "\<not> scan_fails f (pc_id pc)" "\<not> mark_fails f (pc_id pc)"
  shows "pc\<lparr>processed := True\<rparr> \<in> set (changes_of (fst (poll_cycle f db)))
       \<and> snd (poll_cycle f db) = Committed"
proof -
  from assms(3) obtain w where w: "watermark db = Some w" "w < pc_id pc" "\<not> processed pc"
    "matches db pc"
    by (auto simp add: pending_for_def split: option.splits)
  from w(4) obtain os where os: "orders db = Some os"
    by (cases "orders db") (auto simp add: matches_def orders_of_def)
  from assms(1) obtain cs where cs: "priority_changes db = Some cs"
    by (cases "priority_changes db") (auto simp add: changes_of_def)
  let ?ids = "marked_ids f (select_changes os cs w)"
  have pc: "pc \<in> set cs" using assms(1) cs by (simp add: changes_of_def)
  have "\<exists>r \<in> set os. o_id r = order_id pc \<and> product_name r = ''ninja''"
    using w(4) os by (simp add: matches_def orders_of_def)
  with pc w(2,3) have "pc_id pc \<in> set (map fst (select_changes os cs w))"
    unfolding select_ids_set by blast
  then have i: "pc_id pc \<in> set ?ids"
    using assms(4,5) by (simp add: marked_ids_def)
  have p: "poll_cycle f db = (advance f w (last_or 0 ?ids) (mark_all (set ?ids) db), Committed)"
    using assms(2) w(1) os cs by (rule poll_cycle_commits)
  have "changes_of (fst (poll_cycle f db)) =
      map (\<lambda>pc. if pc_id pc \<in> set ?ids then pc\<lparr>processed := True\<rparr> else pc) cs"
    by (simp add: p cs changes_of_def advance_fields mark_all_def)
  then have "pc\<lparr>processed := True\<rparr> \<in> set (changes_of (fst (poll_cycle f db)))"
    using pc i by force
  then show ?thesis by (simp add: p)
qed

text \<open>
  C2, as the code has it. When \<^verbatim>\<open>Begin\<close>, the read of the watermark, the query or the
  \<^verbatim>\<open>Commit\<close> fails, the store after the cycle is the store before it. A row whose
  \<^verbatim>\<open>Scan\<close> or whose \<^verbatim>\<open>UPDATE\<close> fails is left as it was. The other rows that the query
  returns are marked, and the cycle commits them, when none of the four statements above
  fails. In every case the cycle ends and the loop goes on with the next cycle on the
  store that this one left. (After a failed read or query the loop goes on by
  \<^verbatim>\<open>continue\<close>: nothing was written, and the transaction is left open, not rolled back.)
\<close>

theorem failed_cycle_effects:
  "(cycle_fails f \<longrightarrow> fst (poll_cycle f db) = db)
   \<and> (\<forall>pc \<in> set (changes_of db).
         scan_fails f (pc_id pc) \<or> mark_fails f (pc_id pc)
           \<longrightarrow> pc \<in> set (changes_of (fst (poll_cycle f db))))
   \<and> (\<forall>pc \<in> set (changes_of db).
         \<not> cycle_fails f \<and> pending_for db pc
           \<and> \<not> scan_fails f (pc_id pc) \<and> \<not> mark_fails f (pc_id pc)
           \<longrightarrow> pc\<lparr>processed := True\<rparr> \<in> set (changes_of (fst (poll_cycle f db)))
               \<and> snd (poll_cycle f db) = Committed)
   \<and> pollForPriorityChanges (f # fs) db = pollForPriorityChanges fs (fst (poll_cycle f db))"
  using cycle_fails_unchanged[of f db] failed_row_kept[of _ db f] pending_row_marked[of _ db f]
  by (intro conjI ballI impI) simp_all

theorem failed_cycle_effects_witness:
  "cycle_fails commit_fails_only
   \<and> fst (poll_cycle commit_fails_only two_pending) = two_pending
   \<and> a_change 2 1 False \<in> set (changes_of two_pending)
   \<and> scan_fails (scan_fails_on 2) 2
   \<and> a_change 2 1 False \<in> set (changes_of (fst (poll_cycle (scan_fails_on 2) two_pending)))
   \<and> a_change 1 1 False \<in> set (changes_of two_pending)
   \<and> pending_for two_pending (a_change 1 1 False)
   \<and> a_change 1 1 True \<in> set (changes_of (fst (poll_cycle (scan_fails_on 2) two_pending)))
   \<and> snd (poll_cycle (scan_fails_on 2) two_pending) = Committed"
proof -
  have a: "cycle_fails commit_fails_only" by code_simp
  have b: "a_change 2 1 False \<in> set (changes_of two_pending)"
    and b': "a_change 1 1 False \<in> set (changes_of two_pending)" by code_simp+
  have c: "scan_fails (scan_fails_on 2) (pc_id (a_change 2 1 False))"
    and c': "scan_fails (scan_fails_on 2) 2" by code_simp+
  have d: "\<not> cycle_fails (scan_fails_on 2)" "pending_for two_pending (a_change 1 1 False)"
    "\<not> scan_fails (scan_fails_on 2) (pc_id (a_change 1 1 False))"
    "\<not> mark_fails (scan_fails_on 2) (pc_id (a_change 1 1 False))" by code_simp+
  have e: "(a_change 1 1 False)\<lparr>processed := True\<rparr> = a_change 1 1 True"
    by (simp add: a_change_def)
  from failed_cycle_effects [of commit_fails_only two_pending "[]"] a
  have 1: "fst (poll_cycle commit_fails_only two_pending) = two_pending" by blast
  from failed_cycle_effects [of "scan_fails_on 2" two_pending "[]"] b c
  have 2: "a_change 2 1 False \<in> set (changes_of (fst (poll_cycle (scan_fails_on 2) two_pending)))"
    by blast
  from failed_cycle_effects [of "scan_fails_on 2" two_pending "[]"] b' d
  have 3: "(a_change 1 1 False)\<lparr>processed := True\<rparr>
             \<in> set (changes_of (fst (poll_cycle (scan_fails_on 2) two_pending)))"
    and 4: "snd (poll_cycle (scan_fails_on 2) two_pending) = Committed"
    by blast+
  from a 1 b c' 2 b' d(2) 3 4 show ?thesis unfolding e by (simp only: simp_thms)
qed

text \<open>
  C2 as stated fails: in a cycle on two pending events of a \<^verbatim>\<open>ninja\<close> order in which the
  \<^verbatim>\<open>Scan\<close> of row 2 fails, the cycle commits all the same; event 1 is processed and the
  watermark goes from 0 to 1.
\<close>

theorem row_failure_still_commits:
  "scan_fails (scan_fails_on 2) 2
   \<and> poll_cycle (scan_fails_on 2) two_pending = (first_done, Committed)
   \<and> first_done \<noteq> two_pending
   \<and> watermark two_pending = Some 0
   \<and> watermark first_done = Some 1"
  by code_simp


section \<open>Rows left out by a cycle\<close>

text \<open>
  A cycle in which no \<^verbatim>\<open>Scan\<close> and no row \<^verbatim>\<open>UPDATE\<close> fails keeps the invariant of the
  watermark: if every event at or below the watermark whose order satisfies the filter was
  processed before, so it is after.
\<close>

lemma cycle_keeps_invariant:
  assumes nf: "\<forall>i. \<not> scan_fails f i \<and> \<not> mark_fails f i"
    and w: "watermark db = Some w"
    and inv: "\<forall>pc \<in> set (changes_of db). matches db pc \<and> pc_id pc \<le> w \<longrightarrow> processed pc"
    and w': "watermark (fst (poll_cycle f db)) = Some w'"
    and pc': "pc' \<in> set (changes_of (fst (poll_cycle f db)))"
      "matches (fst (poll_cycle f db)) pc'" "pc_id pc' \<le> w'"
  shows "processed pc'"
proof (cases f db rule: poll_cycle_cases)
  case unchanged
  then show ?thesis using w w' inv pc' by simp
next
  case (committed w0 os cs)
  let ?ids = "marked_ids f (select_changes os cs w0)"
  have w0: "w0 = w" using committed(1) w by simp
  have cs: "changes_of db = cs" "orders_of db = os"
    using committed(2,3) by (simp_all add: changes_of_def orders_of_def)
  have cs': "changes_of (fst (poll_cycle f db)) =
      map (\<lambda>pc. if pc_id pc \<in> set ?ids then pc\<lparr>processed := True\<rparr> else pc) cs"
    by (simp add: committed(3,8) changes_of_def advance_fields mark_all_def)
  from pc'(1) obtain pc0 where pc0: "pc0 \<in> set cs"
    "pc' = (if pc_id pc0 \<in> set ?ids then pc0\<lparr>processed := True\<rparr> else pc0)"
    unfolding cs' by auto
  show ?thesis
  proof (cases "pc_id pc0 \<in> set ?ids")
    case True
    with pc0(2) show ?thesis by simp
  next
    case False
    then have eq: "pc' = pc0" using pc0(2) by simp
    have m: "matches db pc0"
      using pc'(2) eq by (simp add: matches_def poll_cycle_keys)
    show ?thesis
    proof (rule ccontr)
      assume np: "\<not> processed pc'"
      then have "\<not> pc_id pc0 \<le> w" using inv pc0(1) m eq cs(1) by blast
      then have "w0 < pc_id pc0" using w0 by simp
      moreover have "\<exists>r \<in> set os. o_id r = order_id pc0 \<and> product_name r = ''ninja''"
        using m cs(2) by (simp add: matches_def)
      ultimately have "pc_id pc0 \<in> set (map fst (select_changes os cs w0))"
        unfolding select_ids_set using pc0(1) np eq by blast
      then have "pc_id pc0 \<in> set ?ids" using nf by (simp add: marked_ids_def)
      with False show False by simp
    qed
  qed
qed

lemma first_lost_forever: "a_change 1 1 False \<in> set (changes_of (run acts first_lost))"
proof -
  have "watermark first_lost = Some 2" "a_change 1 1 False \<in> set (changes_of first_lost)"
    "pc_id (a_change 1 1 False) \<le> 2"
    by code_simp+
  then show ?thesis by (rule run_below)
qed

text \<open>
  C1. The claim is that after a committed cycle every event at or below the watermark whose
  order satisfies the filter is processed. In a cycle on two pending events of a
  \<^verbatim>\<open>ninja\<close> order in which the \<^verbatim>\<open>UPDATE\<close> of row 1 fails, row 1 is left out, row 2 is
  marked, \<^verbatim>\<open>maxID\<close> is 2, and the cycle commits the watermark 2: event 1 is at or below
  the watermark, its order satisfies the filter, and it is pending. (That no later step
  writes an event at or below the watermark holds: \<open>run_below\<close>.)
\<close>

theorem lost_event_below_watermark:
  "mark_fails (mark_fails_on 1) 1
   \<and> poll_cycle (mark_fails_on 1) two_pending = (first_lost, Committed)
   \<and> watermark first_lost = Some 2
   \<and> a_change 1 1 False \<in> set (changes_of first_lost)
   \<and> pc_id (a_change 1 1 False) = 1
   \<and> matches first_lost (a_change 1 1 False)
   \<and> \<not> processed (a_change 1 1 False)"
  by code_simp

text \<open>
  C5. The claim is that a row whose \<^verbatim>\<open>Scan\<close> fails is selected again by the next cycle,
  because the watermark does not pass it. In a cycle on two pending events of a
  \<^verbatim>\<open>ninja\<close> order in which the \<^verbatim>\<open>Scan\<close> of row 1 fails, row 2 is marked and the
  watermark becomes 2. The query of the next cycle returns no row, that cycle changes
  nothing, and event 1 is pending after any number of further cycles, whatever fails in them.
\<close>

theorem skipped_row_not_retried:
  "scan_fails (scan_fails_on 1) 1
   \<and> poll_cycle (scan_fails_on 1) two_pending = (first_lost, Committed)
   \<and> a_change 1 1 False \<in> set (changes_of first_lost)
   \<and> watermark first_lost = Some 2
   \<and> query_changes poll_ok first_lost 2 = Some []
   \<and> poll_cycle poll_ok first_lost = (first_lost, Committed)
   \<and> (\<forall>fs. a_change 1 1 False \<in> set (changes_of (pollForPriorityChanges fs first_lost)))"
proof -
  have "scan_fails (scan_fails_on 1) 1
   \<and> poll_cycle (scan_fails_on 1) two_pending = (first_lost, Committed)
   \<and> a_change 1 1 False \<in> set (changes_of first_lost)
   \<and> watermark first_lost = Some 2
   \<and> query_changes poll_ok first_lost 2 = Some []
   \<and> poll_cycle poll_ok first_lost = (first_lost, Committed)"
    by code_simp
  moreover have "\<forall>fs. a_change 1 1 False \<in> set (changes_of (pollForPriorityChanges fs first_lost))"
    by (simp add: poll_run first_lost_forever)
  ultimately show ?thesis by blast
qed

section \<open>initDB on an initialised store\<close>

lemma initDB_existing:
  "orders db = Some os \<Longrightarrow> priority_changes db = Some cs \<Longrightarrow> polling_state db = Some (Some w)
     \<Longrightarrow> initDB f db =
          (create_orders_fails f \<or> create_changes_fails f \<or> create_state_fails f
             \<or> insert_state_fails f, db)"
  by (simp add: initDB_def create_if_absent_def Let_def)

lemma initDB_ok_tables:
  "\<exists>os cs w. orders (snd (initDB init_ok db)) = Some os
      \<and> priority_changes (snd (initDB init_ok db)) = Some cs
      \<and> polling_state (snd (initDB init_ok db)) = Some (Some w)
      \<and> fst (initDB init_ok db) = False"
  by (auto simp add: initDB_def init_ok_def create_if_absent_def Let_def split: option.splits)

text \<open>
  C10. \<^verbatim>\<open>initDB\<close> is idempotent. On a store that has the three tables and the watermark
  row, \<^verbatim>\<open>initDB\<close> changes nothing, whichever of its statements fail: the orders, the
  events and the watermark are as before, so a restart does not put the watermark back
  to 0. And on any store, running \<^verbatim>\<open>initDB\<close> again after a run without failure changes
  nothing.
\<close>

theorem initDB_idempotent:
  "(orders db = Some os \<and> priority_changes db = Some cs \<and> polling_state db = Some (Some w)
      \<longrightarrow> snd (initDB f db) = db \<and> watermark (snd (initDB f db)) = Some w)
   \<and> snd (initDB f (snd (initDB init_ok db))) = snd (initDB init_ok db)"
proof -
  obtain os' cs' w' where "orders (snd (initDB init_ok db)) = Some os'"
    "priority_changes (snd (initDB init_ok db)) = Some cs'"
    "polling_state (snd (initDB init_ok db)) = Some (Some w')"
    using initDB_ok_tables by blast
  then have "snd (initDB f (snd (initDB init_ok db))) = snd (initDB init_ok db)"
    by (simp add: initDB_existing)
  then show ?thesis by (simp add: initDB_existing watermark_def)
qed

theorem initDB_idempotent_witness:
  "orders two_done = Some [an_order 1 ''ninja'' ''high'']
   \<and> priority_changes two_done = Some [a_change 1 1 True, a_change 2 1 True]
   \<and> polling_state two_done = Some (Some 2)
   \<and> snd (initDB init_ok two_done) = two_done
   \<and> watermark (snd (initDB init_ok two_done)) = Some 2"
proof -
  have h: "orders two_done = Some [an_order 1 ''ninja'' ''high'']
      \<and> priority_changes two_done = Some [a_change 1 1 True, a_change 2 1 True]
      \<and> polling_state two_done = Some (Some 2)"
    by (simp add: two_done_def)
  with initDB_idempotent [of two_done "[an_order 1 ''ninja'' ''high'']"
      "[a_change 1 1 True, a_change 2 1 True]" 2 init_ok]
  show ?thesis by blast
qed

end
